theory Spec2Isabelle
  imports Main
begin

section \<open>Go values used by the logger\<close>

text \<open>
  The logger of \<^verbatim>\<open>logger_stdout.go\<close> is embedded as pure functions over an explicit
  state. A Go \<^verbatim>\<open>string\<close> is a byte sequence, here a \<open>string\<close> (a list of 8-bit
  characters); \<^verbatim>\<open>len\<close> is \<open>length\<close>. A run-time panic and a channel send that
  cannot proceed are values of the type \<open>stop\<close>.
\<close>

datatype stop =
    PanicIndex    \<comment> \<open>index out of range\<close>
  | PanicSlice    \<comment> \<open>slice bounds out of range\<close>
  | PanicStack    \<comment> \<open>\<^verbatim>\<open>panic(debug.Stack())\<close> after \<^verbatim>\<open>recover\<close>\<close>
  | PanicWrite    \<comment> \<open>\<^verbatim>\<open>panic(err)\<close> after the second failed write\<close>
  | PanicMake     \<comment> \<open>\<^verbatim>\<open>make\<close> or \<^verbatim>\<open>NewTicker\<close> with a size that is out of range\<close>
  | Blocked       \<comment> \<open>the goroutine cannot take this step now\<close>

text \<open>The dynamic type of the \<^verbatim>\<open>interface{}\<close> argument of the emission calls.\<close>

datatype payload =
    Text string            \<comment> \<open>\<^verbatim>\<open>string\<close>\<close>
  | Fields "string list"   \<comment> \<open>\<^verbatim>\<open>[]string\<close>\<close>
  | IntVal int             \<comment> \<open>\<^verbatim>\<open>int\<close>, as in the \<^verbatim>\<open>l.Warn(1)\<close> of the doc comment\<close>
  | BoolVal bool
  | NilVal

fun recognized :: "payload \<Rightarrow> bool" where
  "recognized (Text s) = True"
| "recognized (Fields fs) = True"
| "recognized p = False"

type_synonym LogType = int

definition DEBUG :: LogType where "DEBUG = 0"
definition INFO :: LogType where "INFO = 1"
definition NOTICE :: LogType where "NOTICE = 2"
definition WARN :: LogType where "WARN = 3"
definition ERROR :: LogType where "ERROR = 4"
definition CRITICAL :: LogType where "CRITICAL = 5"
definition FATAL :: LogType where "FATAL = 6"

text \<open>\<^verbatim>\<open>xs[i]\<close> panics outside \<open>0 \<le> i < len(xs)\<close>.\<close>

definition at_index :: "'a list \<Rightarrow> int \<Rightarrow> stop + 'a" where
  "at_index xs i =
     (if 0 \<le> i \<and> i < int (length xs) then Inr (xs ! nat i) else Inl PanicIndex)"

text \<open>\<^verbatim>\<open>s[lo:hi]\<close> panics unless \<open>0 \<le> lo \<le> hi \<le> len(s)\<close>.\<close>

definition slice_of :: "'a list \<Rightarrow> int \<Rightarrow> int \<Rightarrow> stop + 'a list" where
  "slice_of s lo hi =
     (if 0 \<le> lo \<and> lo \<le> hi \<and> hi \<le> int (length s)
      then Inr (drop (nat lo) (take (nat hi) s)) else Inl PanicSlice)"

text \<open>A map lookup \<^verbatim>\<open>m[k]\<close> yields the zero value for a missing key.\<close>

definition map_get :: "(string \<rightharpoonup> string) \<Rightarrow> string \<Rightarrow> string" where
  "map_get m k = (case m k of None \<Rightarrow> [] | Some v \<Rightarrow> v)"

abbreviation ESC :: char where "ESC \<equiv> CHR 0x1B"
abbreviation NL :: char where "NL \<equiv> CHR 0x0A"

section \<open>Lookup tables\<close>

definition dataColor :: "string \<rightharpoonup> string" where
  "dataColor = map_of
     [(''r'', ''41;97''), (''g'', ''42;97''), (''y'', ''43;97''), (''b'', ''44;97'')]"

definition types :: "string list" where
  "types = [''DEBUG'', ''INFO'', ''NOTICE'', ''WARN'', ''ERROR'', ''CRITICAL'', ''FATAL'']"

definition maxTypeLen :: nat where
  "maxTypeLen = fold (\<lambda>t m. if length t > m then length t else m) types 0"

definition logTypeStrings :: "string list" where
  "logTypeStrings =
     map (\<lambda>t. if length t < maxTypeLen
               then t @ replicate (maxTypeLen - length t) CHR '' '' else t) types"

definition logTypesColors :: "string list" where
  "logTypesColors =
     [''45;97'', ''42;97'', ''43;97'', ''43;97'', ''41;97'', ''41;97'', ''41;97'']"

definition GetLogTypeString :: "LogType \<Rightarrow> stop + string" where
  "GetLogTypeString t = at_index logTypeStrings t"

section \<open>The format pipeline\<close>

subsection \<open>The timestamp\<close>

text \<open>
  \<^verbatim>\<open>time.Now().Format(layout)\<close> is the clock's rendering; the clock is not part of the
  program, so the rendering is the argument \<open>now\<close>. The code then pads it:
  \<^verbatim>\<open>if len(formatTime) != len(layout) {
      if len(formatTime) == 21 { formatTime += "." }
      formatTime += ".000"[4-(len(layout)-len(formatTime)) : 4] }\<close>
\<close>

definition layout :: string where
  "layout = ''2006/01/02 - 15:04:05.0000''"

definition formatTime :: "string \<Rightarrow> stop + string" where
  "formatTime now =
     (if length now = length layout then Inr now
      else
        (let ft = (if length now = 21 then now @ ''.'' else now) in
         case slice_of ''.000'' (4 - (int (length layout) - int (length ft))) 4 of
           Inl e \<Rightarrow> Inl e
         | Inr pad \<Rightarrow> Inr (ft @ pad)))"

subsection \<open>The template of a sequence of fields\<close>

text \<open>
  One round of the loop over the fields: the builder \<open>b\<close> gets the field's piece of
  the template, and \<open>tj\<close> is the value stored at \<^verbatim>\<open>values[j+2]\<close>.
\<close>

definition field_step :: "string \<Rightarrow> string \<Rightarrow> string \<times> string" where
  "field_step b f =
     (let ls = length f in
      if ls \<ge> 2 then
        (let color = drop (ls - 2) f in
         if color ! 0 = CHR ''-'' \<and>
            (color ! 1 = CHR ''g'' \<or> color ! 1 = CHR ''b'' \<or>
             color ! 1 = CHR ''r'' \<or> color ! 1 = CHR ''y'')
         then (b @ [ESC] @ ''['' @ map_get dataColor [color ! 1] @ ''m%s'' @ [ESC] @ ''[0m | '',
               take (ls - 2) f)
         else (b @ ''%s | '', f))
      else (b @ ''%s | '', f))"

fun fields_loop :: "string list \<Rightarrow> nat \<Rightarrow> string \<Rightarrow> string list \<Rightarrow> string \<times> string list" where
  "fields_loop [] j b vals = (b, vals)"
| "fields_loop (f # fs) j b vals =
     (case field_step b f of (b', tj) \<Rightarrow> fields_loop fs (Suc j) b' (vals[j + 2 := tj]))"

subsection \<open>The default format function\<close>

text \<open>
  The deferred function recovers any panic of the body and panics again with the stack
  trace.
\<close>

definition repanic :: "stop + 'a \<Rightarrow> stop + 'a" where
  "repanic r = (case r of Inl e \<Rightarrow> Inl PanicStack | Inr v \<Rightarrow> Inr v)"

definition DefaultLogFormatFunc ::
  "string \<Rightarrow> LogType \<Rightarrow> payload \<Rightarrow> stop + (string \<times> string list \<times> bool)" where
  "DefaultLogFormatFunc now logType i = repanic
     (case formatTime now of
        Inl e \<Rightarrow> Inl e
      | Inr ft \<Rightarrow>
         (case i of
            Fields iSli \<Rightarrow>
              (case at_index logTypesColors logType of
                 Inl e \<Rightarrow> Inl e
               | Inr c \<Rightarrow>
                  (case at_index logTypeStrings logType of
                     Inl e \<Rightarrow> Inl e
                   | Inr name \<Rightarrow>
                      (let b = ''['' @ [ESC] @ ''['' @ c @ ''m%s'' @ [ESC] @ ''[0m] %s | '';
                           vals = (replicate (length iSli + 2) [])[0 := name, 1 := ft]
                       in case fields_loop iSli 0 b vals of
                            (b', vals') \<Rightarrow> Inr (b' @ [NL], vals', True))))
          | Text iStr \<Rightarrow>
              (case at_index logTypesColors logType of
                 Inl e \<Rightarrow> Inl e
               | Inr c \<Rightarrow>
                  (case at_index logTypeStrings logType of
                     Inl e \<Rightarrow> Inl e
                   | Inr name \<Rightarrow>
                      Inr (''['' @ [ESC] @ ''['' @ c @ ''m%s'' @ [ESC] @ ''[0m] %s | %s | '' @ [NL],
                           [name, ft, iStr], True)))
          | _ \<Rightarrow> Inr ([], [], True)))"

subsection \<open>\<^verbatim>\<open>fmt.Sprintf\<close> on string operands\<close>

text \<open>
  The library function, for operands that are strings: the verbs \<^verbatim>\<open>%s\<close> and
  \<^verbatim>\<open>%v\<close> print the operand, \<^verbatim>\<open>%%\<close> prints a percent sign, a missing operand
  prints \<^verbatim>\<open>%!s(MISSING)\<close>, operands left over print \<^verbatim>\<open>%!(EXTRA string=..)\<close>,
  a lone \<^verbatim>\<open>%\<close> at the end prints \<^verbatim>\<open>%!(NOVERB)\<close>. Any other verb prints Go's
  bad-verb form; flags, widths and the verbs with a string rendering of their own
  (\<^verbatim>\<open>%q\<close>, \<^verbatim>\<open>%x\<close>) are left out, no template of the logger has them.
\<close>

fun extra_args :: "string list \<Rightarrow> string" where
  "extra_args [] = []"
| "extra_args [a] = ''string='' @ a"
| "extra_args (a # b # as) = ''string='' @ a @ '', '' @ extra_args (b # as)"

fun Sprintf :: "string \<Rightarrow> string list \<Rightarrow> string" where
  "Sprintf [] [] = []"
| "Sprintf [] (a # as) = ''%!(EXTRA '' @ extra_args (a # as) @ '')''"
| "Sprintf [c] args =
     (if c = CHR ''%'' then ''%!(NOVERB)'' @ Sprintf [] args else c # Sprintf [] args)"
| "Sprintf (c # v # fmt) args =
     (if c = CHR ''%'' then
        (if v = CHR ''%'' then CHR ''%'' # Sprintf fmt args
         else
           (case args of
              [] \<Rightarrow> ''%!'' @ [v] @ ''(MISSING)'' @ Sprintf fmt []
            | a # as \<Rightarrow>
                (if v = CHR ''s'' \<or> v = CHR ''v'' then a
                 else ''%!'' @ [v] @ ''(string='' @ a @ '')'') @ Sprintf fmt as))
      else c # Sprintf (v # fmt) args)"

section \<open>The logger's state\<close>

subsection \<open>Slices over a store of arrays\<close>

text \<open>
  A Go slice is a view (array, length, capacity) of a backing array, and two slices can
  share one array: \<^verbatim>\<open>flush\<close> keeps the old view of the cache while the logger gets
  \<^verbatim>\<open>l.cache.data[0:0]\<close>, a view of length 0 of the same array. So the arrays live in
  a store (a list of arrays, addressed by position) and a slice names its array. Every
  slice of the logger starts at the first cell of its array.
\<close>

record slice =
  sl_ptr :: nat
  sl_len :: nat
  sl_cap :: nat

type_synonym store = "string list list"

definition elems :: "store \<Rightarrow> slice \<Rightarrow> string list" where
  "elems h s = take (sl_len s) (h ! sl_ptr s)"

definition wf_slice :: "store \<Rightarrow> slice \<Rightarrow> bool" where
  "wf_slice h s =
     (sl_ptr s < length h \<and> length (h ! sl_ptr s) = sl_cap s \<and> sl_len s \<le> sl_cap s)"

text \<open>\<^verbatim>\<open>make([]string, 0, c)\<close>: a new array of \<open>c\<close> empty strings.\<close>

definition make_slice :: "store \<Rightarrow> nat \<Rightarrow> store \<times> slice" where
  "make_slice h c = (h @ [replicate c []], \<lparr>sl_ptr = length h, sl_len = 0, sl_cap = c\<rparr>)"

text \<open>
  The capacity \<^verbatim>\<open>append\<close> asks for when the array is full: doubled below 256
  cells, grown by a quarter plus 192 from there on. The runtime rounds the result up to
  an allocation size; the rounding is left out, only \<open>growcap c > c\<close> matters here.
\<close>

definition growcap :: "nat \<Rightarrow> nat" where
  "growcap c = (if c = 0 then 1 else if c < 256 then 2 * c else c + (c + 768) div 4)"

text \<open>
  \<^verbatim>\<open>append(s, x)\<close> writes into the shared array when there is room and moves to a
  new array otherwise.
\<close>

definition go_append :: "store \<Rightarrow> slice \<Rightarrow> string \<Rightarrow> store \<times> slice" where
  "go_append h s x =
     (if sl_len s < sl_cap s
      then (h[sl_ptr s := (h ! sl_ptr s)[sl_len s := x]], s\<lparr>sl_len := sl_len s + 1\<rparr>)
      else
        (let c = growcap (sl_cap s) in
         (h @ [elems h s @ [x] @ replicate (c - sl_len s - 1) []],
          \<lparr>sl_ptr = length h, sl_len = sl_len s + 1, sl_cap = c\<rparr>)))"

subsection \<open>Channels, the sink and the goroutines\<close>

text \<open>A \<^verbatim>\<open>chan string\<close>: nil, or a buffer with its capacity.\<close>

datatype chan = NilChan | Chan nat "string list"

text \<open>
  The sink is an \<^verbatim>\<open>io.Writer\<close> supplied from outside. A call writes the bytes and
  reports an error or not; \<open>True\<close> stands for an error. What the writer answers may
  depend on every call made so far, so the writer is a function of that history.
\<close>

type_synonym wcall = "string \<times> bool"
type_synonym writer = "wcall list \<Rightarrow> string \<Rightarrow> bool"

text \<open>
  The statements of \<^verbatim>\<open>flush\<close>, for a flush that runs as a goroutine of its own:
  where it stands and its local variable \<^verbatim>\<open>cache\<close>.
\<close>

datatype flush_pc = AtEntry | AtSwap | AtWrite | AtRetry | AtDefer | AtEnd

record frame =
  fr_pc :: flush_pc
  fr_cache :: slice

type_synonym FormatFunc = "string \<Rightarrow> LogType \<Rightarrow> payload \<Rightarrow> stop + (string \<times> string list \<times> bool)"

text \<open>
  The fields of the struct \<^verbatim>\<open>Logger\<close> (the three mutexes apart: a function below is
  one atomic step, which is what a held lock gives), then the state around it: the
  store, the calls the sink has received, and the goroutines that \<^verbatim>\<open>Start\<close> and the
  ticker have started. \<^verbatim>\<open>syncStatus\<close> is an \<^verbatim>\<open>int\<close>.
\<close>

record Logger =
  out :: writer
  logFormatFunc :: FormatFunc
  logLevel :: LogType
  status :: int
  queue :: chan
  queueSize :: int
  cache_use :: bool
  cache_data :: slice
  cache_cacheCap :: int
  cache_duration :: int
  heap :: store
  written :: "wcall list"
  drainers :: nat
  tickers :: nat
  flushes :: "frame list"

type_synonym result = "(stop \<times> Logger) + Logger"

text \<open>
  The three status constants follow the seven level constants in one \<^verbatim>\<open>const\<close>
  block, so \<^verbatim>\<open>iota\<close> is 7 at \<^verbatim>\<open>statusInit\<close>.
\<close>

definition statusInit :: int where "statusInit = 7"
definition statusDoing :: int where "statusDoing = 8"
definition statusDone :: int where "statusDone = 9"

definition wf_logger :: "Logger \<Rightarrow> bool" where
  "wf_logger l = wf_slice (heap l) (cache_data l)"

definition cached :: "Logger \<Rightarrow> string list" where
  "cached l = elems (heap l) (cache_data l)"

definition queued :: "Logger \<Rightarrow> string list" where
  "queued l = (case queue l of NilChan \<Rightarrow> [] | Chan c buf \<Rightarrow> buf)"

definition has_room :: "Logger \<Rightarrow> bool" where
  "has_room l = (case queue l of NilChan \<Rightarrow> False | Chan c buf \<Rightarrow> length buf < c)"

subsection \<open>Construction and configuration\<close>

text \<open>\<open>stdout\<close> is the behaviour of \<^verbatim>\<open>os.Stdout\<close>.\<close>

definition NewLogger :: "writer \<Rightarrow> Logger" where
  "NewLogger stdout =
     (case make_slice [] 128 of
        (h, data) \<Rightarrow>
          \<lparr>out = stdout, logFormatFunc = DefaultLogFormatFunc, logLevel = DEBUG,
           status = 0, queue = NilChan, queueSize = 100000, cache_use = True,
           cache_data = data, cache_cacheCap = 128, cache_duration = 100,
           heap = h, written = [], drainers = 0, tickers = 0, flushes = []\<rparr>)"


definition SetCacheDuration :: "Logger \<Rightarrow> int \<Rightarrow> Logger" where
  "SetCacheDuration l duration = l\<lparr>cache_duration := duration\<rparr>"

definition SetQueueSize :: "Logger \<Rightarrow> int \<Rightarrow> Logger" where
  "SetQueueSize l n = l\<lparr>queueSize := n\<rparr>"

definition SetCacheCap :: "Logger \<Rightarrow> int \<Rightarrow> Logger" where
  "SetCacheCap l c = l\<lparr>cache_cacheCap := c\<rparr>"

definition SetLogLevel :: "Logger \<Rightarrow> LogType \<Rightarrow> Logger" where
  "SetLogLevel l logType = l\<lparr>logLevel := logType\<rparr>"

definition GetLogLevel :: "Logger \<Rightarrow> LogType" where
  "GetLogLevel l = logLevel l"

definition SetLoggerFormat :: "Logger \<Rightarrow> FormatFunc \<Rightarrow> Logger" where
  "SetLoggerFormat l formatFunc = l\<lparr>logFormatFunc := formatFunc\<rparr>"

text \<open>
  \<^verbatim>\<open>Start\<close> makes the channel and starts the drain worker when the cache is off, and
  starts the ticker goroutine otherwise. \<^verbatim>\<open>make\<close> panics on a negative size and
  \<^verbatim>\<open>time.NewTicker\<close> on an interval that is not positive.
\<close>

definition Start :: "Logger \<Rightarrow> result" where
  "Start l =
     (if \<not> cache_use l then
        (if queueSize l < 0 then Inl (PanicMake, l)
         else Inr (l\<lparr>queue := Chan (nat (queueSize l)) [], drainers := drainers l + 1\<rparr>))
      else
        (if cache_duration l \<le> 0 then Inl (PanicMake, l)
         else Inr (l\<lparr>tickers := tickers l + 1\<rparr>)))"

section \<open>Emission\<close>

text \<open>
  \<^verbatim>\<open>log\<close> holds \<^verbatim>\<open>l.mu\<close> from its first statement to its return. A send to a nil
  channel or to a full one does not proceed: the caller waits.
\<close>

definition log :: "Logger \<Rightarrow> string \<Rightarrow> LogType \<Rightarrow> payload \<Rightarrow> result" where
  "log l now logType i =
     (if logLevel l > logType then Inr l
      else
        (case logFormatFunc l now logType i of
           Inl e \<Rightarrow> Inl (e, l)
         | Inr (format, data, isLog) \<Rightarrow>
            (if \<not> isLog then Inr l
             else if cache_use l then
               (case go_append (heap l) (cache_data l) (Sprintf format data) of
                  (h, s) \<Rightarrow> Inr (l\<lparr>heap := h, cache_data := s\<rparr>))
             else
               (case queue l of
                  NilChan \<Rightarrow> Inl (Blocked, l)
                | Chan c buf \<Rightarrow>
                    (if length buf < c
                     then Inr (l\<lparr>queue := Chan c (buf @ [Sprintf format data])\<rparr>)
                     else Inl (Blocked, l))))))"

definition Debug :: "Logger \<Rightarrow> string \<Rightarrow> payload \<Rightarrow> result" where
  "Debug l now i = log l now DEBUG i"

definition Info :: "Logger \<Rightarrow> string \<Rightarrow> payload \<Rightarrow> result" where
  "Info l now i = log l now INFO i"

definition Notice :: "Logger \<Rightarrow> string \<Rightarrow> payload \<Rightarrow> result" where
  "Notice l now i = log l now NOTICE i"

definition Warn :: "Logger \<Rightarrow> string \<Rightarrow> payload \<Rightarrow> result" where
  "Warn l now i = log l now WARN i"

definition Error :: "Logger \<Rightarrow> string \<Rightarrow> payload \<Rightarrow> result" where
  "Error l now i = log l now ERROR i"

definition Critical :: "Logger \<Rightarrow> string \<Rightarrow> payload \<Rightarrow> result" where
  "Critical l now i = log l now CRITICAL i"

definition Fatal :: "Logger \<Rightarrow> string \<Rightarrow> payload \<Rightarrow> result" where
  "Fatal l now i = log l now FATAL i"

section \<open>Delivery\<close>

text \<open>\<^verbatim>\<open>io.WriteString(l.out, msg)\<close>: the sink answers, the call joins its history.\<close>

definition WriteString :: "Logger \<Rightarrow> string \<Rightarrow> Logger \<times> bool" where
  "WriteString l msg =
     (let err = out l (written l) msg in (l\<lparr>written := written l @ [(msg, err)]\<rparr>, err))"

text \<open>One round of the drain worker: it waits for a message, then writes it.\<close>

definition drain :: "Logger \<Rightarrow> result" where
  "drain l =
     (case queue l of
        NilChan \<Rightarrow> Inl (Blocked, l)
      | Chan c buf \<Rightarrow>
         (case buf of
            [] \<Rightarrow> Inl (Blocked, l)
          | msg # rest \<Rightarrow>
             (case WriteString (l\<lparr>queue := Chan c rest\<rparr>) msg of
                (l1, err) \<Rightarrow>
                  if err then
                    (case WriteString l1 msg of
                       (l2, err2) \<Rightarrow> if err2 then Inl (PanicWrite, l2) else Inr l2)
                  else Inr l1)))"

text \<open>
  \<^verbatim>\<open>flush\<close> called and run to its end with no other goroutine in between. The
  deferred function sets the status on every way out, the panic included.
\<close>

definition flush :: "Logger \<Rightarrow> result" where
  "flush l =
     (let l1 = l\<lparr>status := statusDoing\<rparr>;
          cache = cache_data l1;
          l2 = l1\<lparr>cache_data := cache\<lparr>sl_len := 0\<rparr>\<rparr>
      in
        if sl_len cache = 0 then Inr (l2\<lparr>status := statusDone\<rparr>)
        else
          (case WriteString l2 (concat (elems (heap l2) cache)) of
             (l3, err) \<Rightarrow>
               if err then
                 (case WriteString l3 (concat (elems (heap l3) cache)) of
                    (l4, err2) \<Rightarrow>
                      if err2 then Inl (PanicWrite, l4\<lparr>status := statusDone\<rparr>)
                      else Inr (l4\<lparr>status := statusDone\<rparr>))
               else Inr (l3\<lparr>status := statusDone\<rparr>)))"

section \<open>Goroutines, one statement at a time\<close>

text \<open>
  The ticker goroutine starts \<^verbatim>\<open>go l.flush()\<close> when the status it reads is not
  \<^verbatim>\<open>statusDoing\<close>; the new goroutine has not run a statement yet.
\<close>

definition new_frame :: frame where
  "new_frame = \<lparr>fr_pc = AtEntry, fr_cache = \<lparr>sl_ptr = 0, sl_len = 0, sl_cap = 0\<rparr>\<rparr>"

definition tick :: "Logger \<Rightarrow> result" where
  "tick l =
     (if tickers l = 0 then Inl (Blocked, l)
      else if status l \<noteq> statusDoing then Inr (l\<lparr>flushes := flushes l @ [new_frame]\<rparr>)
      else Inr l)"

text \<open>
  One statement of the flush goroutine \<open>i\<close>: the status write, the swap under
  \<^verbatim>\<open>l.cache.mutex\<close>, the length test with the first write, the retry, the deferred
  status write.
\<close>

definition set_frame :: "Logger \<Rightarrow> nat \<Rightarrow> frame \<Rightarrow> Logger" where
  "set_frame l i fr = l\<lparr>flushes := (flushes l)[i := fr]\<rparr>"

definition flush_step :: "nat \<Rightarrow> Logger \<Rightarrow> result" where
  "flush_step i l =
     (if i < length (flushes l) then
        (let fr = flushes l ! i; cache = fr_cache fr in
         case fr_pc fr of
           AtEntry \<Rightarrow> Inr (set_frame (l\<lparr>status := statusDoing\<rparr>) i (fr\<lparr>fr_pc := AtSwap\<rparr>))
         | AtSwap \<Rightarrow>
             Inr (set_frame (l\<lparr>cache_data := (cache_data l)\<lparr>sl_len := 0\<rparr>\<rparr>) i
                    \<lparr>fr_pc = AtWrite, fr_cache = cache_data l\<rparr>)
         | AtWrite \<Rightarrow>
             (if sl_len cache = 0 then Inr (set_frame l i (fr\<lparr>fr_pc := AtDefer\<rparr>))
              else
                (case WriteString l (concat (elems (heap l) cache)) of
                   (l1, err) \<Rightarrow>
                     Inr (set_frame l1 i (fr\<lparr>fr_pc := (if err then AtRetry else AtDefer)\<rparr>))))
         | AtRetry \<Rightarrow>
             (case WriteString l (concat (elems (heap l) cache)) of
                (l1, err) \<Rightarrow>
                  if err
                  then Inl (PanicWrite, set_frame (l1\<lparr>status := statusDone\<rparr>) i (fr\<lparr>fr_pc := AtEnd\<rparr>))
                  else Inr (set_frame l1 i (fr\<lparr>fr_pc := AtDefer\<rparr>)))
         | AtDefer \<Rightarrow> Inr (set_frame (l\<lparr>status := statusDone\<rparr>) i (fr\<lparr>fr_pc := AtEnd\<rparr>))
         | AtEnd \<Rightarrow> Inl (Blocked, l))
      else Inl (Blocked, l))"

text \<open>A schedule is a list of events; each is one atomic step of one goroutine.\<close>

datatype event =
    Tick
  | FlushStep nat
  | Emit string LogType payload
  | Drain

fun step :: "event \<Rightarrow> Logger \<Rightarrow> result" where
  "step Tick l = tick l"
| "step (FlushStep i) l = flush_step i l"
| "step (Emit now logType i) l = log l now logType i"
| "step Drain l = (if drainers l = 0 then Inl (Blocked, l) else drain l)"

fun run :: "event list \<Rightarrow> Logger \<Rightarrow> result" where
  "run [] l = Inr l"
| "run (e # es) l = (case step e l of Inl x \<Rightarrow> Inl x | Inr l' \<Rightarrow> run es l')"

text \<open>A flush is in progress from its status write to its deferred status write.\<close>

fun in_progress :: "frame \<Rightarrow> bool" where
  "in_progress fr = (fr_pc fr = AtSwap \<or> fr_pc fr = AtWrite \<or> fr_pc fr = AtRetry \<or> fr_pc fr = AtDefer)"

definition in_flight :: "Logger \<Rightarrow> nat" where
  "in_flight l = length (filter in_progress (flushes l))"

text \<open>The bytes the sink has received, in the order of the calls that succeeded.\<close>

definition delivered :: "Logger \<Rightarrow> string" where
  "delivered l = concat (map fst (filter (\<lambda>w. \<not> snd w) (written l)))"

section \<open>Vocabulary for the properties\<close>

subsection \<open>Reading a state and a result\<close>

text \<open>
  What has been accepted and waits for delivery: the cache buffer in cache mode, the
  queue otherwise.
\<close>

definition pending :: "Logger \<Rightarrow> string list" where
  "pending l = (if cache_use l then cached l else queued l)"

text \<open>
  The state a call leaves behind, whether it returned or not; whether it returned;
  whether it ended in the panic of the second failed write; and the calls it made to
  the sink.
\<close>

definition the_state :: "result \<Rightarrow> Logger" where
  "the_state r = (case r of Inl (e, l) \<Rightarrow> l | Inr l \<Rightarrow> l)"

definition returns :: "result \<Rightarrow> bool" where
  "returns r = (case r of Inl x \<Rightarrow> False | Inr l \<Rightarrow> True)"



subsection \<open>What the specification says, in its words\<close>

text \<open>
  A piece of text wrapped in a terminal colour code; the display name of a level, padded
  with spaces to the 8 characters of \<^verbatim>\<open>CRITICAL\<close>; the colour code of a level, taken
  from the table of the source.
\<close>

definition colored :: "string \<Rightarrow> string \<Rightarrow> string" where
  "colored code s = [ESC] @ ''['' @ code @ ''m'' @ s @ [ESC] @ ''[0m''"

definition spec_level_name :: "LogType \<Rightarrow> string" where
  "spec_level_name lt =
     (let n = [''DEBUG'', ''INFO'', ''NOTICE'', ''WARN'', ''ERROR'', ''CRITICAL'', ''FATAL''] ! nat lt
      in n @ replicate (8 - length n) CHR '' '')"

definition level_color :: "LogType \<Rightarrow> string" where
  "level_color lt = logTypesColors ! nat lt"

text \<open>
  A field of a sequence payload: when it ends in one of the four colour suffixes, the
  suffix is stripped and the rest is wrapped in the colour of the suffix; otherwise the
  field stands as it is.
\<close>

definition spec_field :: "string \<Rightarrow> string" where
  "spec_field f =
     (let suffix = drop (length f - 2) f; stem = take (length f - 2) f in
      if suffix = ''-r'' then colored ''41;97'' stem
      else if suffix = ''-g'' then colored ''42;97'' stem
      else if suffix = ''-b'' then colored ''44;97'' stem
      else if suffix = ''-y'' then colored ''43;97'' stem
      else f)"

text \<open>
  The two records: \<^verbatim>\<open>[<LEVEL>] <timestamp> | <text> | \n\<close> and
  \<^verbatim>\<open>[<LEVEL>] <timestamp> | <f1> | <f2> | ... | \n\<close>.
\<close>

definition spec_head :: "LogType \<Rightarrow> string \<Rightarrow> string" where
  "spec_head lt ts = ''['' @ colored (level_color lt) (spec_level_name lt) @ ''] '' @ ts @ '' | ''"

definition spec_text_record :: "LogType \<Rightarrow> string \<Rightarrow> string \<Rightarrow> string" where
  "spec_text_record lt ts s = spec_head lt ts @ s @ '' | '' @ [NL]"

definition spec_fields_record :: "LogType \<Rightarrow> string \<Rightarrow> string list \<Rightarrow> string" where
  "spec_fields_record lt ts fs =
     spec_head lt ts @ concat (map (\<lambda>f. spec_field f @ '' | '') fs) @ [NL]"


subsection \<open>Sinks and states used as examples\<close>

text \<open>Three sinks: one that takes every write, one that refuses every write, and one
  that refuses the first call it ever gets.\<close>

definition never_fails :: writer where "never_fails h m = False"



text \<open>
  A logger started with its defaults; a cache-mode logger that has accepted one line;
  a queue-mode logger, started, that has accepted one message.
\<close>

definition started :: Logger where
  "started = the_state (Start (NewLogger never_fails))"

definition cached_sample :: "writer \<Rightarrow> Logger" where
  "cached_sample w = the_state (log (NewLogger w) layout INFO (Text ''x''))"


text \<open>
  A schedule of the started logger: an emission, a tick, the first two statements of
  the flush it starts (the status write and the swap), a second emission, the rest of
  that flush, then a second tick and its whole flush.
\<close>

definition lost_entry_schedule :: "event list" where
  "lost_entry_schedule =
     [Emit layout INFO (Text ''A''), Tick, FlushStep 0, FlushStep 0,
      Emit layout INFO (Text ''B''), FlushStep 0, FlushStep 0,
      Tick, FlushStep 1, FlushStep 1, FlushStep 1, FlushStep 1]"

text \<open>
  A flush goroutine that is started and runs \<open>k\<close> statements with nothing in between,
  and the result with the goroutine's frame taken away again.
\<close>

definition spawn :: "Logger \<Rightarrow> Logger" where
  "spawn l = l\<lparr>flushes := flushes l @ [new_frame]\<rparr>"

definition uninterrupted :: "Logger \<Rightarrow> nat \<Rightarrow> result" where
  "uninterrupted l k = run (replicate k (FlushStep (length (flushes l)))) (spawn l)"

definition forget_frame :: "Logger \<Rightarrow> result \<Rightarrow> result" where
  "forget_frame l r =
     (case r of Inl (e, l') \<Rightarrow> Inl (e, l'\<lparr>flushes := flushes l\<rparr>)
              | Inr l' \<Rightarrow> Inr (l'\<lparr>flushes := flushes l\<rparr>))"

section \<open>The format pipeline: lemmas\<close>

subsection \<open>\<^verbatim>\<open>Sprintf\<close> on the pieces of a template\<close>

lemma Sprintf_plain: "c \<noteq> CHR ''%'' \<Longrightarrow> Sprintf (c # fmt) args = c # Sprintf fmt args"
  by (cases fmt) simp_all

lemma Sprintf_prefix: "CHR ''%'' \<notin> set pre \<Longrightarrow> Sprintf (pre @ fmt) args = pre @ Sprintf fmt args"
  by (induction pre) (auto simp: Sprintf_plain)

lemma Sprintf_verb_s: "Sprintf (CHR ''%'' # CHR ''s'' # fmt) (a # as) = a @ Sprintf fmt as"
  by simp

lemma plain_piece: "Sprintf (''%s | '' @ fmt) (a # as) = a @ '' | '' @ Sprintf fmt as"
  by (simp add: Sprintf_plain)

lemma colored_piece:
  assumes "CHR ''%'' \<notin> set code"
  shows "Sprintf (([ESC] @ ''['' @ code @ ''m%s'' @ [ESC] @ ''[0m | '') @ fmt) (a # as)
         = colored code a @ '' | '' @ Sprintf fmt as"
proof -
  have "Sprintf (([ESC] @ ''['' @ code @ ''m'') @ (''%s'' @ [ESC] @ ''[0m | '' @ fmt)) (a # as)
        = ([ESC] @ ''['' @ code @ ''m'') @ Sprintf (''%s'' @ [ESC] @ ''[0m | '' @ fmt) (a # as)"
    using assms by (intro Sprintf_prefix) simp
  then show ?thesis
    by (simp add: colored_def Sprintf_plain)
qed

lemma head_piece:
  assumes "CHR ''%'' \<notin> set c"
  shows "Sprintf ((''['' @ [ESC] @ ''['' @ c @ ''m%s'' @ [ESC] @ ''[0m] %s | '') @ fmt) (name # ft # as)
         = ''['' @ colored c name @ ''] '' @ ft @ '' | '' @ Sprintf fmt as"
proof -
  have "Sprintf ((''['' @ [ESC] @ ''['' @ c @ ''m'') @ (''%s'' @ [ESC] @ ''[0m] %s | '' @ fmt)) (name # ft # as)
        = (''['' @ [ESC] @ ''['' @ c @ ''m'') @ Sprintf (''%s'' @ [ESC] @ ''[0m] %s | '' @ fmt) (name # ft # as)"
    using assms by (intro Sprintf_prefix) simp
  then show ?thesis
    by (simp add: colored_def Sprintf_plain)
qed

subsection \<open>One field\<close>

lemma two_chars: "length (s::string) = 2 \<Longrightarrow> s = [s ! 0, s ! 1]"
  by (cases s; cases "tl s") auto

lemma field_step_builder:
  "field_step b f = (b @ fst (field_step [] f), snd (field_step [] f))"
  by (auto simp add: field_step_def Let_def)

lemma field_step_short: "length f < 2 \<Longrightarrow> field_step b f = (b @ ''%s | '', f)"
  by (simp add: field_step_def Let_def)

lemma field_step_long:
  assumes "length f \<ge> 2" "drop (length f - 2) f = [d, c]"
  shows "field_step b f =
     (if d = CHR ''-'' \<and> (c = CHR ''g'' \<or> c = CHR ''b'' \<or> c = CHR ''r'' \<or> c = CHR ''y'')
      then (b @ [ESC] @ ''['' @ map_get dataColor [c] @ ''m%s'' @ [ESC] @ ''[0m | '',
            take (length f - 2) f)
      else (b @ ''%s | '', f))"
  using assms by (simp add: field_step_def Let_def)

lemma spec_field_short: "length f < 2 \<Longrightarrow> spec_field f = f"
  by (auto simp: spec_field_def Let_def)

lemma spec_field_long:
  assumes "drop (length f - 2) f = [d, c]"
  shows "spec_field f =
     (if d = CHR ''-'' \<and> (c = CHR ''g'' \<or> c = CHR ''b'' \<or> c = CHR ''r'' \<or> c = CHR ''y'')
      then colored (map_get dataColor [c]) (take (length f - 2) f) else f)"
  using assms by (auto simp: spec_field_def Let_def dataColor_def map_get_def)

lemma field_piece:
  "Sprintf (fst (field_step [] f) @ fmt) (snd (field_step [] f) # as)
   = spec_field f @ '' | '' @ Sprintf fmt as"
proof (cases "length f \<ge> 2")
  case False
  then show ?thesis
    using plain_piece [of fmt f as] by (simp add: field_step_short spec_field_short)
next
  case True
  then have "length (drop (length f - 2) f) = 2" by simp
  then obtain d c where dc: "drop (length f - 2) f = [d, c]"
    using two_chars by blast
  show ?thesis
  proof (cases "d = CHR ''-'' \<and> (c = CHR ''g'' \<or> c = CHR ''b'' \<or> c = CHR ''r'' \<or> c = CHR ''y'')")
    case False
    have "field_step [] f = ([] @ ''%s | '', f)"
      unfolding field_step_long [OF True dc] using False by (rule if_not_P)
    moreover have "spec_field f = f"
      unfolding spec_field_long [OF dc] using False by (rule if_not_P)
    ultimately show ?thesis
      using plain_piece [of fmt f as] by simp
  next
    case rec: True
    have "field_step [] f =
        ([] @ [ESC] @ ''['' @ map_get dataColor [c] @ ''m%s'' @ [ESC] @ ''[0m | '',
         take (length f - 2) f)"
      unfolding field_step_long [OF True dc] using rec by (rule if_P)
    moreover have "spec_field f = colored (map_get dataColor [c]) (take (length f - 2) f)"
      unfolding spec_field_long [OF dc] using rec by (rule if_P)
    moreover from rec have "CHR ''%'' \<notin> set (map_get dataColor [c])"
      by (auto simp: dataColor_def map_get_def)
    ultimately show ?thesis
      using colored_piece [of "map_get dataColor [c]" fmt "take (length f - 2) f" as]
      by simp
  qed
qed

subsection \<open>The level tables\<close>

lemma level_cases:
  assumes "0 \<le> lt" "lt \<le> 6"
  shows "lt = 0 \<or> lt = 1 \<or> lt = 2 \<or> lt = 3 \<or> lt = 4 \<or> lt = 5 \<or> lt = (6::int)"
  using assms by arith

lemma logTypeStrings_eq:
  "logTypeStrings = [''DEBUG   '', ''INFO    '', ''NOTICE  '', ''WARN    '', ''ERROR   '', ''CRITICAL'', ''FATAL   '']"
  by code_simp

lemma maxTypeLen_eq: "maxTypeLen = 8"
  by code_simp

lemma level_lookup:
  assumes "0 \<le> lt" "lt \<le> 6"
  shows "at_index logTypeStrings lt = Inr (spec_level_name lt)"
    and "at_index logTypesColors lt = Inr (level_color lt)"
    and "CHR ''%'' \<notin> set (level_color lt)"
    and "length (spec_level_name lt) = 8"
  using level_cases [OF assms]
  by (auto simp: at_index_def logTypeStrings_eq logTypesColors_def spec_level_name_def level_color_def eval_nat_numeral)

lemma level_lookup_outside:
  assumes "lt < 0 \<or> 6 < lt"
  shows "at_index logTypesColors lt = Inl PanicIndex"
  using assms by (auto simp: at_index_def logTypesColors_def)

subsection \<open>The loop and the whole template\<close>

lemma fields_loop_eq:
  "length vals = j + 2 + length fs \<Longrightarrow>
   fields_loop fs j b vals =
     (b @ concat (map (\<lambda>f. fst (field_step [] f)) fs),
      take (j + 2) vals @ map (\<lambda>f. snd (field_step [] f)) fs)"
proof (induction fs arbitrary: j b vals)
  case Nil
  then show ?case by simp
next
  case (Cons f fs)
  let ?v = "snd (field_step [] f)"
  have len: "length (vals[j + 2 := ?v]) = Suc j + 2 + length fs"
    using Cons.prems by simp
  have tk: "take (Suc j + 2) (vals[j + 2 := ?v]) = take (j + 2) vals @ [?v]"
    using Cons.prems by (simp add: take_Suc_conv_app_nth)
  have "fields_loop (f # fs) j b vals =
          fields_loop fs (Suc j) (b @ fst (field_step [] f)) (vals[j + 2 := ?v])"
    by (simp add: field_step_builder [of b f])
  also have "\<dots> = ((b @ fst (field_step [] f)) @ concat (map (\<lambda>f. fst (field_step [] f)) fs),
      take (Suc j + 2) (vals[j + 2 := ?v]) @ map (\<lambda>f. snd (field_step [] f)) fs)"
    by (rule Cons.IH [OF len])
  finally show ?case unfolding tk by simp
qed

lemma Sprintf_pieces:
  "Sprintf (concat (map (\<lambda>f. fst (field_step [] f)) fs) @ fmt)
           (map (\<lambda>f. snd (field_step [] f)) fs @ as)
   = concat (map (\<lambda>f. spec_field f @ '' | '') fs) @ Sprintf fmt as"
proof (induction fs)
  case Nil
  then show ?case by simp
next
  case (Cons f fs)
  have "Sprintf (fst (field_step [] f) @ (concat (map (\<lambda>f. fst (field_step [] f)) fs) @ fmt))
           (snd (field_step [] f) # (map (\<lambda>f. snd (field_step [] f)) fs @ as))
        = spec_field f @ '' | '' @
          Sprintf (concat (map (\<lambda>f. fst (field_step [] f)) fs) @ fmt)
                  (map (\<lambda>f. snd (field_step [] f)) fs @ as)"
    by (rule field_piece)
  with Cons.IH show ?case by simp
qed

lemma default_text:
  assumes "0 \<le> lt" "lt \<le> 6" "formatTime now = Inr ts"
  shows "\<exists>f d. DefaultLogFormatFunc now lt (Text s) = Inr (f, d, True) \<and>
               Sprintf f d = spec_text_record lt ts s"
proof -
  let ?f = "(''['' @ [ESC] @ ''['' @ level_color lt @ ''m%s'' @ [ESC] @ ''[0m] %s | '') @ (''%s | '' @ [NL])"
  have "DefaultLogFormatFunc now lt (Text s) = Inr (?f, [spec_level_name lt, ts, s], True)"
    using assms by (simp add: DefaultLogFormatFunc_def repanic_def level_lookup)
  moreover have "Sprintf ?f [spec_level_name lt, ts, s] = spec_text_record lt ts s"
    unfolding head_piece [OF level_lookup(3) [OF assms(1,2)]]
    by (simp add: spec_text_record_def spec_head_def)
  ultimately show ?thesis by blast
qed

lemma default_fields:
  assumes "0 \<le> lt" "lt \<le> 6" "formatTime now = Inr ts"
  shows "\<exists>f. DefaultLogFormatFunc now lt (Fields fs) =
               Inr (f, [spec_level_name lt, ts] @ map (\<lambda>f. snd (field_step [] f)) fs, True) \<and>
             Sprintf f ([spec_level_name lt, ts] @ map (\<lambda>f. snd (field_step [] f)) fs)
               = spec_fields_record lt ts fs"
proof -
  let ?h = "''['' @ [ESC] @ ''['' @ level_color lt @ ''m%s'' @ [ESC] @ ''[0m] %s | ''"
  let ?p = "concat (map (\<lambda>f. fst (field_step [] f)) fs)"
  let ?v = "map (\<lambda>f. snd (field_step [] f)) fs"
  let ?vals = "(replicate (length fs + 2) [])[0 := spec_level_name lt, 1 := ts]"
  have tk: "take 2 ?vals = [spec_level_name lt, ts]"
    by (simp add: take_Suc_conv_app_nth numeral_2_eq_2)
  have "fields_loop fs 0 ?h ?vals = (?h @ ?p, take (0 + 2) ?vals @ ?v)"
    by (rule fields_loop_eq) simp
  then have loop: "fields_loop fs 0 ?h ?vals = (?h @ ?p, [spec_level_name lt, ts] @ ?v)"
    using tk by simp
  have "DefaultLogFormatFunc now lt (Fields fs) =
          Inr ((?h @ ?p) @ [NL], [spec_level_name lt, ts] @ ?v, True)"
    using assms loop by (simp add: DefaultLogFormatFunc_def repanic_def level_lookup Let_def)
  moreover have "Sprintf (?h @ (?p @ [NL])) (spec_level_name lt # ts # (?v @ []))
                 = ''['' @ colored (level_color lt) (spec_level_name lt) @ ''] '' @ ts @ '' | '' @
                   Sprintf (?p @ [NL]) (?v @ [])"
    by (rule head_piece [OF level_lookup(3) [OF assms(1,2)]])
  moreover have "Sprintf (?p @ [NL]) (?v @ []) =
                 concat (map (\<lambda>f. spec_field f @ '' | '') fs) @ Sprintf [NL] []"
    by (rule Sprintf_pieces)
  ultimately show ?thesis
    by (simp add: spec_fields_record_def spec_head_def)
qed

lemma default_other:
  assumes "\<not> recognized p" "formatTime now = Inr ts"
  shows "DefaultLogFormatFunc now lt p = Inr ([], [], True)"
  using assms by (cases p) (simp_all add: DefaultLogFormatFunc_def repanic_def)




subsection \<open>The timestamp\<close>

text \<open>
  A rendering of full width is kept; one that lacks one, two or three digits gets that
  many zeros; one of 21 characters, with no fraction at all, gets a second point and
  three zeros.
\<close>

lemma formatTime_layout: "length now = 26 \<Longrightarrow> formatTime now = Inr now"
  by (simp add: formatTime_def layout_def)

lemma formatTime_pads_zeros:
  assumes "length now = 23 \<or> length now = 24 \<or> length now = 25"
  shows "formatTime now = Inr (now @ replicate (26 - length now) CHR ''0'')"
  using assms by (auto simp: formatTime_def layout_def slice_of_def eval_nat_numeral)

lemma formatTime_without_fraction:
  assumes "length now = 21"
  shows "formatTime now = Inr (now @ ''..000'')"
  using assms by (auto simp: formatTime_def layout_def slice_of_def)

section \<open>Emission and delivery: lemmas\<close>

subsection \<open>Appending to a slice\<close>

lemma growcap_gt: "c < growcap c"
  unfolding growcap_def by (auto simp: div_greater_zero_iff)

lemma go_append_elems:
  assumes "wf_slice h s" "go_append h s x = (h', s')"
  shows "elems h' s' = elems h s @ [x]" and "wf_slice h' s'"
proof -
  from assms(1) have p: "sl_ptr s < length h" and c: "length (h ! sl_ptr s) = sl_cap s"
    and n: "sl_len s \<le> sl_cap s"
    by (simp_all add: wf_slice_def)
  show "elems h' s' = elems h s @ [x]"
  proof (cases "sl_len s < sl_cap s")
    case True
    with assms(2) p c show ?thesis
      by (auto simp: go_append_def elems_def take_Suc_conv_app_nth)
  next
    case False
    with assms(2) n c show ?thesis
      by (auto simp: go_append_def elems_def Let_def)
  qed
  show "wf_slice h' s'"
  proof (cases "sl_len s < sl_cap s")
    case True
    with assms(2) p c show ?thesis
      by (auto simp: go_append_def wf_slice_def)
  next
    case False
    with n have "sl_len s = sl_cap s" by simp
    with False assms(2) c growcap_gt [of "sl_cap s"] show ?thesis
      by (auto simp: go_append_def wf_slice_def Let_def elems_def)
  qed
qed

lemma cached_nonempty_len: "cached l \<noteq> [] \<Longrightarrow> sl_len (cache_data l) \<noteq> 0"
  by (auto simp: cached_def elems_def)

subsection \<open>\<^verbatim>\<open>log\<close>\<close>

lemma emission_calls:
  "Debug l now i = log l now 0 i" "Info l now i = log l now 1 i" "Notice l now i = log l now 2 i"
  "Warn l now i = log l now 3 i" "Error l now i = log l now 4 i"
  "Critical l now i = log l now 5 i" "Fatal l now i = log l now 6 i"
  by (simp_all add: Debug_def Info_def Notice_def Warn_def Error_def Critical_def Fatal_def
      DEBUG_def INFO_def NOTICE_def WARN_def ERROR_def CRITICAL_def FATAL_def)


lemma log_accept:
  assumes "logLevel l \<le> logType" "logFormatFunc l now logType i = Inr (f, d, True)"
    "cache_use l \<or> has_room l" "wf_logger l"
  shows "\<exists>l'. log l now logType i = Inr l' \<and> pending l' = pending l @ [Sprintf f d] \<and>
              written l' = written l \<and> wf_logger l' \<and> cache_use l' = cache_use l \<and>
              out l' = out l \<and> (cache_use l \<longrightarrow> queue l' = queue l) \<and>
              (\<not> cache_use l \<longrightarrow> cached l' = cached l)"
proof (cases "cache_use l")
  case True
  obtain h s where a: "go_append (heap l) (cache_data l) (Sprintf f d) = (h, s)"
    by (cases "go_append (heap l) (cache_data l) (Sprintf f d)")
  from assms(4) have "wf_slice (heap l) (cache_data l)" by (simp add: wf_logger_def)
  from go_append_elems [OF this a] True assms(1,2) a show ?thesis
    by (simp add: log_def pending_def cached_def wf_logger_def)
next
  case False
  with assms(3) obtain c buf where q: "queue l = Chan c buf" "length buf < c"
    by (auto simp: has_room_def split: chan.splits)
  with False assms(1,2,4) show ?thesis
    by (simp add: log_def pending_def queued_def wf_logger_def cached_def)
qed

lemma log_frame:
  "out (the_state (log l now t i)) = out l"
  "written (the_state (log l now t i)) = written l"
  by (auto simp: log_def the_state_def split: sum.splits prod.splits chan.splits)

lemma log_default_text:
  assumes "0 \<le> lt" "lt \<le> 6" "formatTime now = Inr ts"
    "logFormatFunc l = DefaultLogFormatFunc" "logLevel l \<le> lt"
    "cache_use l \<or> has_room l" "wf_logger l"
  shows "\<exists>l'. log l now lt (Text s) = Inr l' \<and>
               pending l' = pending l @ [spec_text_record lt ts s] \<and>
               cache_use l' = cache_use l \<and> wf_logger l'"
proof -
  from default_text [OF assms(1,2,3), of s] obtain f d
    where fd: "DefaultLogFormatFunc now lt (Text s) = Inr (f, d, True)"
      and sp: "Sprintf f d = spec_text_record lt ts s"
    by blast
  from fd assms(4) have "logFormatFunc l now lt (Text s) = Inr (f, d, True)" by simp
  from log_accept [OF assms(5) this assms(6,7)] sp show ?thesis
    by auto
qed

lemma log_keeps_wf:
  assumes "wf_logger l" "log l now t i = Inr l'"
  shows "wf_logger l'"
proof -
  have "wf_slice h s" if "go_append (heap l) (cache_data l) x = (h, s)" for h s x
    using go_append_elems(2) [OF _ that] assms(1) by (simp add: wf_logger_def)
  with assms show ?thesis
    by (auto simp: log_def wf_logger_def split: if_splits sum.splits prod.splits chan.splits)
qed

subsection \<open>\<^verbatim>\<open>flush\<close> and the drain worker\<close>

lemma WriteString_simps:
  "fst (WriteString l msg) = l\<lparr>written := written l @ [(msg, out l (written l) msg)]\<rparr>"
  "snd (WriteString l msg) = out l (written l) msg"
  by (simp_all add: WriteString_def Let_def)



lemma flush_empty:
  assumes "sl_len (cache_data l) = 0"
  shows "flush l = Inr (l\<lparr>status := statusDone\<rparr>)"
  using assms by (cases l) (simp add: flush_def Let_def)



lemma flush_keeps_wf:
  assumes "wf_logger l"
  shows "wf_logger (the_state (flush l))"
  using assms
  by (auto simp: flush_def WriteString_def Let_def the_state_def wf_logger_def wf_slice_def)

subsection \<open>The constructor, the setter and the example states\<close>

lemma NewLogger_fields:
  "logFormatFunc (NewLogger w) = DefaultLogFormatFunc"
  "logLevel (NewLogger w) = 0"
  "cache_use (NewLogger w)"
  "wf_logger (NewLogger w)"
  "cached (NewLogger w) = []"
  "pending (NewLogger w) = []"
  "written (NewLogger w) = []"
  "out (NewLogger w) = w"
  by (simp_all add: NewLogger_def make_slice_def wf_logger_def wf_slice_def cached_def
      pending_def elems_def DEBUG_def)

lemma SetLogLevel_fields:
  "logFormatFunc (SetLogLevel l t) = logFormatFunc l"
  "logLevel (SetLogLevel l t) = t"
  "cache_use (SetLogLevel l t) = cache_use l"
  "wf_logger (SetLogLevel l t) = wf_logger l"
  "pending (SetLogLevel l t) = pending l"
  "written (SetLogLevel l t) = written l"
  by (simp_all add: SetLogLevel_def wf_logger_def pending_def cached_def queued_def)


lemma cached_sample_fields:
  "cached (cached_sample w) = [spec_text_record INFO layout ''x'']"
  "written (cached_sample w) = []"
  "out (cached_sample w) = w"
  "wf_logger (cached_sample w)"
proof -
  have ft: "formatTime layout = Inr layout"
    by (simp add: formatTime_def)
  have "\<exists>l'. log (NewLogger w) layout INFO (Text ''x'') = Inr l' \<and>
               pending l' = pending (NewLogger w) @ [spec_text_record INFO layout ''x''] \<and>
               cache_use l' = cache_use (NewLogger w) \<and> wf_logger l'"
    by (rule log_default_text [OF _ _ ft]) (simp_all add: NewLogger_fields INFO_def)
  then show "cached (cached_sample w) = [spec_text_record INFO layout ''x'']"
    and "wf_logger (cached_sample w)"
    by (auto simp: cached_sample_def the_state_def NewLogger_fields pending_def)
  show "written (cached_sample w) = []" "out (cached_sample w) = w"
    by (simp_all add: cached_sample_def log_frame NewLogger_fields)
qed


subsection \<open>The ticker and the statements of a flush goroutine\<close>

text \<open>
  A tick that reads \<^verbatim>\<open>statusDoing\<close> starts nothing; any other tick starts a flush
  goroutine. The statements of one flush goroutine, run with nothing in between, are
  the function \<open>flush\<close>.
\<close>

lemma tick_skips:
  assumes "status l = statusDoing" "tickers l \<noteq> 0"
  shows "tick l = Inr l"
  using assms by (simp add: tick_def)

lemma tick_starts:
  assumes "status l \<noteq> statusDoing" "tickers l \<noteq> 0"
  shows "tick l = Inr (l\<lparr>flushes := flushes l @ [new_frame]\<rparr>)"
  using assms by (simp add: tick_def)

lemma flush_step_entry:
  "flush_step (length fs) (l\<lparr>flushes := fs @ [\<lparr>fr_pc = AtEntry, fr_cache = c\<rparr>]\<rparr>) =
     Inr (l\<lparr>status := statusDoing, flushes := fs @ [\<lparr>fr_pc = AtSwap, fr_cache = c\<rparr>]\<rparr>)"
  by (simp add: flush_step_def set_frame_def)

lemma flush_step_swap:
  "flush_step (length fs) (l\<lparr>flushes := fs @ [\<lparr>fr_pc = AtSwap, fr_cache = c\<rparr>]\<rparr>) =
     Inr (l\<lparr>cache_data := (cache_data l)\<lparr>sl_len := 0\<rparr>,
            flushes := fs @ [\<lparr>fr_pc = AtWrite, fr_cache = cache_data l\<rparr>]\<rparr>)"
  by (simp add: flush_step_def set_frame_def)

lemma flush_step_write:
  "flush_step (length fs) (l\<lparr>flushes := fs @ [\<lparr>fr_pc = AtWrite, fr_cache = c\<rparr>]\<rparr>) =
     (if sl_len c = 0 then Inr (l\<lparr>flushes := fs @ [\<lparr>fr_pc = AtDefer, fr_cache = c\<rparr>]\<rparr>)
      else Inr (l\<lparr>written := written l @ [(concat (elems (heap l) c), out l (written l) (concat (elems (heap l) c)))],
                  flushes := fs @ [\<lparr>fr_pc = (if out l (written l) (concat (elems (heap l) c)) then AtRetry else AtDefer),
                                    fr_cache = c\<rparr>]\<rparr>))"
  by (simp add: flush_step_def set_frame_def WriteString_def Let_def)

lemma flush_step_retry:
  "flush_step (length fs) (l\<lparr>flushes := fs @ [\<lparr>fr_pc = AtRetry, fr_cache = c\<rparr>]\<rparr>) =
     (if out l (written l) (concat (elems (heap l) c))
      then Inl (PanicWrite,
                l\<lparr>written := written l @ [(concat (elems (heap l) c), True)], status := statusDone,
                  flushes := fs @ [\<lparr>fr_pc = AtEnd, fr_cache = c\<rparr>]\<rparr>)
      else Inr (l\<lparr>written := written l @ [(concat (elems (heap l) c), False)],
                  flushes := fs @ [\<lparr>fr_pc = AtDefer, fr_cache = c\<rparr>]\<rparr>))"
  by (simp add: flush_step_def set_frame_def WriteString_def Let_def)

lemma flush_step_defer:
  "flush_step (length fs) (l\<lparr>flushes := fs @ [\<lparr>fr_pc = AtDefer, fr_cache = c\<rparr>]\<rparr>) =
     Inr (l\<lparr>status := statusDone, flushes := fs @ [\<lparr>fr_pc = AtEnd, fr_cache = c\<rparr>]\<rparr>)"
  by (simp add: flush_step_def set_frame_def)

lemmas flush_step_at = flush_step_entry flush_step_swap flush_step_write flush_step_retry
  flush_step_defer

lemma flush_is_uninterrupted_steps:
  "\<exists>k \<le> 5. forget_frame l (uninterrupted l k) = flush l"
proof -
  let ?m = "concat (elems (heap l) (cache_data l))"
  have l: "l\<lparr>flushes := flushes l\<rparr> = l" by simp
  consider (empty) "sl_len (cache_data l) = 0"
    | (ok) "sl_len (cache_data l) \<noteq> 0" "\<not> out l (written l) ?m"
    | (retry) "sl_len (cache_data l) \<noteq> 0" "out l (written l) ?m"
        "\<not> out l (written l @ [(?m, True)]) ?m"
    | (abort) "sl_len (cache_data l) \<noteq> 0" "out l (written l) ?m"
        "out l (written l @ [(?m, True)]) ?m"
    by blast
  then show ?thesis
  proof cases
    case empty
    then have "forget_frame l (uninterrupted l 4) = flush l"
      using flush_step_at [of "flushes l"]
      by (simp add: uninterrupted_def spawn_def new_frame_def eval_nat_numeral forget_frame_def
          flush_empty)
    then show ?thesis by (intro exI [of _ 4]) simp
  next
    case ok
    then have "forget_frame l (uninterrupted l 4) = flush l"
      using flush_step_at [of "flushes l"]
      by (simp add: uninterrupted_def spawn_def new_frame_def eval_nat_numeral forget_frame_def
          flush_def WriteString_def Let_def elems_def)
    then show ?thesis by (intro exI [of _ 4]) simp
  next
    case retry
    then have "forget_frame l (uninterrupted l 5) = flush l"
      using flush_step_at [of "flushes l"]
      by (simp add: uninterrupted_def spawn_def new_frame_def eval_nat_numeral forget_frame_def
          flush_def WriteString_def Let_def elems_def)
    then show ?thesis by (intro exI [of _ 5]) simp
  next
    case abort
    then have "forget_frame l (uninterrupted l 4) = flush l"
      using flush_step_at [of "flushes l"]
      by (simp add: uninterrupted_def spawn_def new_frame_def eval_nat_numeral forget_frame_def
          flush_def WriteString_def Let_def elems_def)
    then show ?thesis by (intro exI [of _ 4]) simp
  qed
qed

section \<open>The claims\<close>

subsection \<open>C1: a payload of an unrecognized type\<close>

text \<open>
  Claim C1, as the specification states it: for a payload that is neither a string nor
  a sequence of strings the default format function answers an empty template with
  \<open>shouldEmit = false\<close>, and nothing reaches the cache buffer, the queue or the sink.
  The code answers \<open>true\<close>. For the payload \<^verbatim>\<open>1\<close> at level Info on a new logger:
  the result is the empty template, no values and \<open>True\<close>; the cache buffer, empty
  before, holds one entry after, the empty string; and the next flush calls the sink
  with zero bytes.
\<close>

theorem unrecognized_payload_counterexample:
  "DefaultLogFormatFunc layout INFO (IntVal 1) = Inr ([], [], True) \<and>
   cached (NewLogger never_fails) = [] \<and>
   cached (the_state (log (NewLogger never_fails) layout INFO (IntVal 1))) = [[]] \<and>
   written (the_state (flush (the_state (log (NewLogger never_fails) layout INFO (IntVal 1)))))
     = [([], False)]"
  by code_simp

text \<open>
  Claim C1, amended: for every payload of an unrecognized type the default format
  function answers the empty template, no values and \<open>shouldEmit = true\<close> (the
  timestamp is computed first and must not panic). An emission at an accepted level
  then appends the empty string to the cache buffer in cache mode, or pushes it onto
  the queue when the queue has room, and the emission itself makes no call to the sink.
\<close>

theorem unrecognized_payload_emits_empty:
  assumes "\<not> recognized p" "formatTime now = Inr ts"
    "logFormatFunc l = DefaultLogFormatFunc" "logLevel l \<le> logType"
    "cache_use l \<or> has_room l" "wf_logger l"
  shows "DefaultLogFormatFunc now logType p = Inr ([], [], True) \<and>
         (\<exists>l'. log l now logType p = Inr l' \<and> pending l' = pending l @ [[]] \<and>
               written l' = written l)"
proof -
  have d: "DefaultLogFormatFunc now logType p = Inr ([], [], True)"
    using assms(1,2) by (rule default_other)
  with assms(3) have "logFormatFunc l now logType p = Inr ([], [], True)" by simp
  from log_accept [OF assms(4) this assms(5,6)] d show ?thesis by auto
qed

text \<open>
  Claim C1, amended, on a new logger with the payload \<^verbatim>\<open>1\<close> at level Info.
\<close>

theorem unrecognized_payload_emits_empty_witness:
  "DefaultLogFormatFunc layout INFO (IntVal 1) = Inr ([], [], True) \<and>
   (\<exists>l'. log (NewLogger never_fails) layout INFO (IntVal 1) = Inr l' \<and>
         pending l' = [[]] \<and> written l' = [])"
proof -
  have ft: "formatTime layout = Inr layout"
    by (simp add: formatTime_def)
  have "DefaultLogFormatFunc layout INFO (IntVal 1) = Inr ([], [], True) \<and>
         (\<exists>l'. log (NewLogger never_fails) layout INFO (IntVal 1) = Inr l' \<and>
               pending l' = pending (NewLogger never_fails) @ [[]] \<and>
               written l' = written (NewLogger never_fails))"
    by (rule unrecognized_payload_emits_empty [OF _ ft])
      (simp_all add: NewLogger_fields INFO_def)
  then show ?thesis
    by (simp add: NewLogger_fields)
qed

subsection \<open>C2: the level filter\<close>



subsection \<open>C3: one retry, then the panic\<close>



subsection \<open>C4: at most one flush in flight\<close>

text \<open>
  Claim C4 says that no reachable state of a running cache-mode logger has two flushes
  in progress. The ticker tests the status before it starts \<^verbatim>\<open>go l.flush()\<close>, but
  the status is set by the first statement of the new goroutine, not by the ticker.
  Two ticks before that statement start two flushes: after the schedule tick, tick,
  first statement of flush 0, first statement of flush 1, the started logger has two
  flushes in progress.
\<close>

theorem two_flushes_in_flight:
  "returns (run [Tick, Tick, FlushStep 0, FlushStep 1] started) \<and>
   status (the_state (run [Tick, Tick, FlushStep 0, FlushStep 1] started)) = statusDoing \<and>
   in_flight (the_state (run [Tick, Tick, FlushStep 0, FlushStep 1] started)) = 2"
  by code_simp

subsection \<open>C5: no entry lost, duplicated or reordered\<close>

text \<open>
  Claim C5 says that the sink receives the emitted records, each once and in order, and
  that an entry appended after the swap of a flush is not in the batch of that flush.
  The swap leaves the logger a slice of length 0 of the same array
  (\<^verbatim>\<open>l.cache.data[0:0]\<close>), so the next \<^verbatim>\<open>append\<close> overwrites cell 0, which the
  flush has yet to read. On the schedule \<open>lost_entry_schedule\<close>: the record A is in
  the buffer after the first emission; the record B, emitted after the swap, is the
  buffer's only entry; the two flushes write B and B again, and A never reaches the
  sink.
\<close>

theorem swap_shares_array:
  "returns (run lost_entry_schedule started) \<and>
   cached (the_state (run (take 1 lost_entry_schedule) started))
     = [spec_text_record INFO layout ''A''] \<and>
   cached (the_state (run (take 5 lost_entry_schedule) started))
     = [spec_text_record INFO layout ''B''] \<and>
   written (the_state (run lost_entry_schedule started))
     = [(spec_text_record INFO layout ''B'', False), (spec_text_record INFO layout ''B'', False)] \<and>
   cached (the_state (run lost_entry_schedule started)) = [] \<and>
   delivered (the_state (run lost_entry_schedule started))
     \<noteq> spec_text_record INFO layout ''A'' @ spec_text_record INFO layout ''B''"
  by code_simp

subsection \<open>C6: flushing an empty buffer\<close>

text \<open>
  Claim C6, as the specification states it: flushing an empty buffer twice in a row
  makes exactly one write to the sink. On a new logger, whose buffer is empty, both
  flushes return and the sink has received no call.
\<close>

theorem flush_twice_counterexample:
  "cached (NewLogger never_fails) = [] \<and>
   returns (flush (NewLogger never_fails)) \<and>
   returns (flush (the_state (flush (NewLogger never_fails)))) \<and>
   length (written (the_state (flush (the_state (flush (NewLogger never_fails)))))) = 0"
  by code_simp

text \<open>
  Claim C6, amended: a flush that finds the buffer empty changes nothing but the status
  and makes no call to the sink. After any flush that returns, a second flush with no
  emission in between finds the buffer empty and makes no call. So two flushes in a row
  make exactly one write when the buffer was not empty and the write succeeds, and none
  when the buffer was empty.
\<close>

theorem flush_twice:
  assumes "wf_logger l" "flush l = Inr l1"
  shows "(\<exists>l2. flush l1 = Inr l2 \<and> written l2 = written l1 \<and> cached l2 = []) \<and>
         (cached l = [] \<longrightarrow> l1 = l\<lparr>status := statusDone\<rparr>) \<and>
         (cached l \<noteq> [] \<and> \<not> out l (written l) (concat (cached l)) \<longrightarrow>
            written l1 = written l @ [(concat (cached l), False)])"
proof -
  have len1: "sl_len (cache_data l1) = 0"
    using assms(2)
    by (auto simp: flush_def WriteString_def Let_def split: if_splits)
  have a: "\<exists>l2. flush l1 = Inr l2 \<and> written l2 = written l1 \<and> cached l2 = []"
    using len1 by (simp add: flush_empty cached_def elems_def)
  have b: "l1 = l\<lparr>status := statusDone\<rparr>" if "cached l = []"
  proof -
    from that assms(1) have "sl_len (cache_data l) = 0"
      by (auto simp: cached_def elems_def wf_logger_def wf_slice_def)
    with assms(2) show ?thesis by (auto simp: flush_empty)
  qed
  have c: "written l1 = written l @ [(concat (cached l), False)]"
    if "cached l \<noteq> []" "\<not> out l (written l) (concat (cached l))"
  proof -
    from that(1) have "sl_len (cache_data l) \<noteq> 0"
      by (auto simp: cached_def elems_def)
    with that(2) assms(2) show ?thesis
      by (auto simp: flush_def WriteString_def Let_def cached_def elems_def)
  qed
  from a b c show ?thesis by blast
qed

text \<open>
  Claim C6, amended, on a logger that holds one line, with a sink that takes every
  write: the two flushes return and the sink has received the line once.
\<close>

theorem flush_twice_witness:
  "\<exists>l1 l2. flush (cached_sample never_fails) = Inr l1 \<and> flush l1 = Inr l2 \<and>
     written l2 = [(spec_text_record INFO layout ''x'', False)] \<and> cached l2 = []"
proof -
  note c = cached_sample_fields [of never_fails]
  from c(1) have "sl_len (cache_data (cached_sample never_fails)) \<noteq> 0"
    by (intro cached_nonempty_len) simp
  then obtain l1 where l1: "flush (cached_sample never_fails) = Inr l1"
    by (auto simp: flush_def WriteString_def Let_def c never_fails_def)
  from flush_twice [OF c(4) l1] c l1 show ?thesis
    by (auto simp: never_fails_def)
qed

subsection \<open>C7: the record of a text payload\<close>

text \<open>
  Claim C7: for a string payload at a level of the emission calls, the template and the
  values of the default format function print, through \<^verbatim>\<open>Sprintf\<close>, as
  \<^verbatim>\<open>[<LEVEL>] <timestamp> | <text> | \n\<close>, where the level is its display
  name padded to the 8 characters of the longest name and wrapped in the level's
  colour code; at an accepted level \<open>log\<close> appends exactly this record to what waits
  for delivery.
\<close>

theorem emit_text_record:
  assumes "0 \<le> lt" "lt \<le> 6" "formatTime now = Inr ts"
    "logFormatFunc l = DefaultLogFormatFunc" "logLevel l \<le> lt"
    "cache_use l \<or> has_room l" "wf_logger l"
  shows "(\<exists>f d. DefaultLogFormatFunc now lt (Text s) = Inr (f, d, True) \<and>
                Sprintf f d = spec_text_record lt ts s) \<and>
         (\<exists>l'. log l now lt (Text s) = Inr l' \<and>
               pending l' = pending l @ [spec_text_record lt ts s]) \<and>
         GetLogTypeString lt = Inr (spec_level_name lt) \<and>
         length (spec_level_name lt) = maxTypeLen \<and> maxTypeLen = 8"
proof -
  from default_text [OF assms(1,2,3), of s] obtain f d
    where fd: "DefaultLogFormatFunc now lt (Text s) = Inr (f, d, True)"
      and sp: "Sprintf f d = spec_text_record lt ts s"
    by blast
  from fd assms(4) have "logFormatFunc l now lt (Text s) = Inr (f, d, True)" by simp
  from log_accept [OF assms(5) this assms(6,7)] sp
  have "\<exists>l'. log l now lt (Text s) = Inr l' \<and>
               pending l' = pending l @ [spec_text_record lt ts s]"
    by auto
  with fd sp level_lookup(1,4) [OF assms(1,2)] show ?thesis
    by (auto simp: GetLogTypeString_def maxTypeLen_eq)
qed

text \<open>
  Claim C7 at threshold Info with the text \<^verbatim>\<open>200 | ok! | 1ms | GET /x\<close> at Info.
\<close>

theorem emit_text_record_witness:
  "\<exists>l'. log (SetLogLevel (NewLogger never_fails) INFO) ''2024/05/06 - 07:08:09.1234'' INFO
           (Text ''200 | ok! | 1ms | GET /x'') = Inr l' \<and>
        pending l' =
          [''['' @ [ESC] @ ''[42;97mINFO    '' @ [ESC] @
           ''[0m] 2024/05/06 - 07:08:09.1234 | 200 | ok! | 1ms | GET /x | '' @ [NL]]"
proof -
  let ?now = "''2024/05/06 - 07:08:09.1234''"
  let ?l = "SetLogLevel (NewLogger never_fails) INFO"
  let ?s = "''200 | ok! | 1ms | GET /x''"
  have ft: "formatTime ?now = Inr ?now"
    by (simp add: formatTime_layout)
  have rec: "spec_text_record INFO ?now ?s =
      ''['' @ [ESC] @ ''[42;97mINFO    '' @ [ESC] @
      ''[0m] 2024/05/06 - 07:08:09.1234 | 200 | ok! | 1ms | GET /x | '' @ [NL]"
    by (simp add: INFO_def spec_text_record_def spec_head_def colored_def level_color_def
        spec_level_name_def logTypesColors_def eval_nat_numeral)
  have "(\<exists>f d. DefaultLogFormatFunc ?now INFO (Text ?s) = Inr (f, d, True) \<and>
                Sprintf f d = spec_text_record INFO ?now ?s) \<and>
         (\<exists>l'. log ?l ?now INFO (Text ?s) = Inr l' \<and>
               pending l' = pending ?l @ [spec_text_record INFO ?now ?s]) \<and>
         GetLogTypeString INFO = Inr (spec_level_name INFO) \<and>
         length (spec_level_name INFO) = maxTypeLen \<and> maxTypeLen = 8"
    by (rule emit_text_record [OF _ _ ft])
      (simp_all add: SetLogLevel_fields NewLogger_fields INFO_def)
  then show ?thesis
    unfolding rec by (simp add: SetLogLevel_fields NewLogger_fields)
qed

subsection \<open>C8: the timestamp\<close>


subsection \<open>C9: the colour suffix of a field\<close>

text \<open>
  Claim C9: for a sequence payload at a level of the emission calls, the printed record
  is the head followed by every field in order, each with its delimiter: a field that
  ends in \<^verbatim>\<open>-r\<close>, \<^verbatim>\<open>-g\<close>, \<^verbatim>\<open>-b\<close> or \<^verbatim>\<open>-y\<close> without the suffix and
  wrapped in the colour of the suffix, any other field as it is; at an accepted level
  \<open>log\<close> appends exactly this record.
\<close>

theorem field_color_suffix:
  assumes "0 \<le> lt" "lt \<le> 6" "formatTime now = Inr ts"
    "logFormatFunc l = DefaultLogFormatFunc" "logLevel l \<le> lt"
    "cache_use l \<or> has_room l" "wf_logger l"
  shows "(\<exists>f d. DefaultLogFormatFunc now lt (Fields fs) = Inr (f, d, True) \<and>
                Sprintf f d = spec_fields_record lt ts fs) \<and>
         (\<exists>l'. log l now lt (Fields fs) = Inr l' \<and>
               pending l' = pending l @ [spec_fields_record lt ts fs])"
proof -
  from default_fields [OF assms(1,2,3), of fs] obtain f d
    where fd: "DefaultLogFormatFunc now lt (Fields fs) = Inr (f, d, True)"
      and sp: "Sprintf f d = spec_fields_record lt ts fs"
    by blast
  from fd assms(4) have "logFormatFunc l now lt (Fields fs) = Inr (f, d, True)" by simp
  from log_accept [OF assms(5) this assms(6,7)] sp
  have "\<exists>l'. log l now lt (Fields fs) = Inr l' \<and>
               pending l' = pending l @ [spec_fields_record lt ts fs]"
    by auto
  with fd sp show ?thesis by blast
qed

text \<open>
  Claim C9 at threshold Warn with the fields \<^verbatim>\<open>GET-y\<close>, \<^verbatim>\<open>GET\<close> and
  \<^verbatim>\<open>404-r\<close> at Error.
\<close>

theorem field_color_suffix_witness:
  "\<exists>l'. log (SetLogLevel (NewLogger never_fails) WARN) ''2024/05/06 - 07:08:09.1234'' ERROR
           (Fields [''GET-y'', ''GET'', ''404-r'']) = Inr l' \<and>
        pending l' =
          [''['' @ [ESC] @ ''[41;97mERROR   '' @ [ESC] @ ''[0m] 2024/05/06 - 07:08:09.1234 | '' @
           [ESC] @ ''[43;97mGET'' @ [ESC] @ ''[0m | GET | '' @
           [ESC] @ ''[41;97m404'' @ [ESC] @ ''[0m | '' @ [NL]]"
proof -
  let ?now = "''2024/05/06 - 07:08:09.1234''"
  let ?l = "SetLogLevel (NewLogger never_fails) WARN"
  let ?fs = "[''GET-y'', ''GET'', ''404-r'']"
  have ft: "formatTime ?now = Inr ?now"
    by (simp add: formatTime_layout)
  have rec: "spec_fields_record ERROR ?now ?fs =
      ''['' @ [ESC] @ ''[41;97mERROR   '' @ [ESC] @ ''[0m] 2024/05/06 - 07:08:09.1234 | '' @
      [ESC] @ ''[43;97mGET'' @ [ESC] @ ''[0m | GET | '' @
      [ESC] @ ''[41;97m404'' @ [ESC] @ ''[0m | '' @ [NL]"
    by (simp add: ERROR_def spec_fields_record_def spec_field_def spec_head_def colored_def
        level_color_def spec_level_name_def logTypesColors_def eval_nat_numeral)
  have "(\<exists>f d. DefaultLogFormatFunc ?now ERROR (Fields ?fs) = Inr (f, d, True) \<and>
                Sprintf f d = spec_fields_record ERROR ?now ?fs) \<and>
         (\<exists>l'. log ?l ?now ERROR (Fields ?fs) = Inr l' \<and>
               pending l' = pending ?l @ [spec_fields_record ERROR ?now ?fs])"
    by (rule field_color_suffix [OF _ _ ft])
      (simp_all add: SetLogLevel_fields NewLogger_fields ERROR_def WARN_def)
  then show ?thesis
    unfolding rec by (simp add: SetLogLevel_fields NewLogger_fields)
qed

subsection \<open>C10: a field that is only a suffix, and short fields\<close>

text \<open>
  Claim C10: a field that is exactly one of the four suffixes has the empty string as
  its value and prints as an empty colour-wrapped segment followed by its delimiter; a
  field of fewer than two characters prints as it is. The field may stand anywhere in
  the sequence.
\<close>

theorem bare_suffix_and_short_fields:
  assumes "0 \<le> lt" "lt \<le> 6" "formatTime now = Inr ts"
    "f = ''-r'' \<or> f = ''-g'' \<or> f = ''-b'' \<or> f = ''-y'' \<or> length f < 2"
  shows "\<exists>t d. DefaultLogFormatFunc now lt (Fields (pre @ [f] @ post)) = Inr (t, d, True) \<and>
           d ! (length pre + 2) = (if length f < 2 then f else []) \<and>
           Sprintf t d =
             spec_head lt ts @ concat (map (\<lambda>f. spec_field f @ '' | '') pre) @
             (if length f < 2 then f
              else [ESC] @ ''['' @ map_get dataColor (drop 1 f) @ ''m'' @ [ESC] @ ''[0m'') @
             '' | '' @ concat (map (\<lambda>f. spec_field f @ '' | '') post) @ [NL]"
proof -
  let ?fs = "pre @ [f] @ post"
  let ?d = "[spec_level_name lt, ts] @ map (\<lambda>f. snd (field_step [] f)) ?fs"
  from default_fields [OF assms(1,2,3), of ?fs] obtain t
    where fd: "DefaultLogFormatFunc now lt (Fields ?fs) = Inr (t, ?d, True)"
      and sp: "Sprintf t ?d = spec_fields_record lt ts ?fs"
    by blast
  have "?d ! (length pre + 2) = snd (field_step [] f)"
    by (simp add: nth_append)
  also have "\<dots> = (if length f < 2 then f else [])"
    using assms(4) by (auto simp: field_step_def)
  finally have v: "?d ! (length pre + 2) = (if length f < 2 then f else [])" .
  have "spec_field f = (if length f < 2 then f
      else [ESC] @ ''['' @ map_get dataColor (drop 1 f) @ ''m'' @ [ESC] @ ''[0m'')"
    using assms(4)
    by (auto simp: spec_field_short spec_field_def colored_def dataColor_def map_get_def)
  with sp have "Sprintf t ?d =
             spec_head lt ts @ concat (map (\<lambda>f. spec_field f @ '' | '') pre) @
             (if length f < 2 then f
              else [ESC] @ ''['' @ map_get dataColor (drop 1 f) @ ''m'' @ [ESC] @ ''[0m'') @
             '' | '' @ concat (map (\<lambda>f. spec_field f @ '' | '') post) @ [NL]"
    by (simp add: spec_fields_record_def)
  with fd v show ?thesis by blast
qed

text \<open>
  Claim C10 on the fields \<^verbatim>\<open>a-g\<close>, \<^verbatim>\<open>-r\<close> and \<^verbatim>\<open>-\<close> at Info.
\<close>

theorem bare_suffix_and_short_fields_witness:
  "\<exists>t d. DefaultLogFormatFunc ''2024/05/06 - 07:08:09.1234'' INFO (Fields [''a-g'', ''-r'', ''-'']) =
            Inr (t, d, True) \<and>
         d ! 3 = [] \<and>
         Sprintf t d =
           ''['' @ [ESC] @ ''[42;97mINFO    '' @ [ESC] @ ''[0m] 2024/05/06 - 07:08:09.1234 | '' @
           [ESC] @ ''[42;97ma'' @ [ESC] @ ''[0m | '' @
           [ESC] @ ''[41;97m'' @ [ESC] @ ''[0m | '' @
           ''- | '' @ [NL]"
proof -
  let ?now = "''2024/05/06 - 07:08:09.1234''"
  have ft: "formatTime ?now = Inr ?now"
    by (simp add: formatTime_layout)
  have rec: "spec_head INFO ?now @ concat (map (\<lambda>f. spec_field f @ '' | '') [''a-g'']) @
        (if length ''-r'' < 2 then ''-r''
         else [ESC] @ ''['' @ map_get dataColor (drop 1 ''-r'') @ ''m'' @ [ESC] @ ''[0m'') @
        '' | '' @ concat (map (\<lambda>f. spec_field f @ '' | '') [''-'']) @ [NL] =
      ''['' @ [ESC] @ ''[42;97mINFO    '' @ [ESC] @ ''[0m] 2024/05/06 - 07:08:09.1234 | '' @
      [ESC] @ ''[42;97ma'' @ [ESC] @ ''[0m | '' @
      [ESC] @ ''[41;97m'' @ [ESC] @ ''[0m | '' @
      ''- | '' @ [NL]"
    by (simp add: INFO_def spec_field_def spec_head_def colored_def level_color_def
        spec_level_name_def logTypesColors_def dataColor_def map_get_def eval_nat_numeral)
  have "\<exists>t d. DefaultLogFormatFunc ?now INFO (Fields ([''a-g''] @ [''-r''] @ [''-''])) = Inr (t, d, True) \<and>
           d ! (length [''a-g''] + 2) = (if length ''-r'' < 2 then ''-r'' else []) \<and>
           Sprintf t d =
             spec_head INFO ?now @ concat (map (\<lambda>f. spec_field f @ '' | '') [''a-g'']) @
             (if length ''-r'' < 2 then ''-r''
              else [ESC] @ ''['' @ map_get dataColor (drop 1 ''-r'') @ ''m'' @ [ESC] @ ''[0m'') @
             '' | '' @ concat (map (\<lambda>f. spec_field f @ '' | '') [''-'']) @ [NL]"
    by (rule bare_suffix_and_short_fields [OF _ _ ft]) (simp_all add: INFO_def)
  then obtain t d
    where a: "DefaultLogFormatFunc ?now INFO (Fields ([''a-g''] @ [''-r''] @ [''-''])) = Inr (t, d, True)"
      and b: "d ! (length [''a-g''] + 2) = (if length ''-r'' < 2 then ''-r'' else [])"
      and c: "Sprintf t d =
             spec_head INFO ?now @ concat (map (\<lambda>f. spec_field f @ '' | '') [''a-g'']) @
             (if length ''-r'' < 2 then ''-r''
              else [ESC] @ ''['' @ map_get dataColor (drop 1 ''-r'') @ ''m'' @ [ESC] @ ''[0m'') @
             '' | '' @ concat (map (\<lambda>f. spec_field f @ '' | '') [''-'']) @ [NL]"
    by blast
  from a have "DefaultLogFormatFunc ?now INFO (Fields [''a-g'', ''-r'', ''-'']) = Inr (t, d, True)"
    by simp
  moreover from b have "d ! 3 = []" by (simp add: eval_nat_numeral)
  moreover note c [unfolded rec]
  ultimately show ?thesis by blast
qed

end
